theory Spec2Isabelle
  imports Main
begin

section \<open>Text: characters, whitespace, case\<close>

text \<open>
  A Python \<open>str\<close> is modelled as a \<^typ>\<open>string\<close>: a list of characters with
  code points 0 to 255.  \<open>LF\<close> and \<open>CR\<close> are the line feed and the carriage
  return.
\<close>

abbreviation LF :: char where
  "LF \<equiv> CHR 0x0A"

abbreviation CR :: char where
  "CR \<equiv> CHR 0x0D"

text \<open>
  \<open>str.isspace\<close> on one character: the code points below 256 that Python counts as
  whitespace are 9 to 13, 28 to 32, 133 and 160.
\<close>

definition is_space :: "char \<Rightarrow> bool" where
  "is_space c =
     (let n = (of_char c :: nat)
      in (9 \<le> n \<and> n \<le> 13) \<or> (28 \<le> n \<and> n \<le> 32) \<or> n = 133 \<or> n = 160)"

text \<open>\<open>str.strip()\<close> with no argument: whitespace is removed at both ends.\<close>

definition strip :: "string \<Rightarrow> string" where
  "strip s = rev (dropWhile is_space (rev (dropWhile is_space s)))"

text \<open>
  \<open>str.lower()\<close>: the letters A to Z, and the upper-case letters of the range 192 to
  222 (215, the multiplication sign, is not one), move up by 32; every other character
  below 256 stays.
\<close>

definition lower_char :: "char \<Rightarrow> char" where
  "lower_char c =
     (let n = (of_char c :: nat)
      in if (65 \<le> n \<and> n \<le> 90) \<or> (192 \<le> n \<and> n \<le> 222 \<and> n \<noteq> 215)
         then char_of (n + 32) else c)"

definition lower :: "string \<Rightarrow> string" where
  "lower s = map lower_char s"

section \<open>The regular expression and \<open>re.split\<close>\<close>

text \<open>
  The fragment of Python's \<open>re\<close> syntax that the pattern of \<open>main\<close> uses: the
  anchors \<open>^\<close> and \<open>$\<close>, a literal, a character class (a list of inclusive ranges)
  under the greedy \<open>+\<close>, concatenation and a capture group.
\<close>

datatype regex =
    Bol
  | Eol
  | Lit string
  | PlusClass "(char \<times> char) list"
  | Cat regex regex
  | Group regex

definition in_class :: "(char \<times> char) list \<Rightarrow> char \<Rightarrow> bool" where
  "in_class rs c =
     list_ex (\<lambda>(lo, hi). (of_char lo :: nat) \<le> of_char c \<and> (of_char c :: nat) \<le> of_char hi) rs"

text \<open>
  The ways a greedy \<open>+\<close> over a class can consume a front of the text, in the order
  in which the backtracking matcher tries them: the longest run first, then one
  character less, down to a single character.  Each entry is the text consumed and the
  text left.
\<close>

fun greedy :: "(char \<Rightarrow> bool) \<Rightarrow> string \<Rightarrow> (string \<times> string) list" where
  "greedy p [] = []"
| "greedy p (c # cs) =
     (if p c then map (\<lambda>(a, b). (c # a, b)) (greedy p cs) @ [([c], cs)] else [])"

text \<open>
  A matcher state is the text before the current position, the text from it on, and
  the groups closed so far.  \<open>rmatch r st\<close> lists the states in which a match of
  \<open>r\<close> begun at \<open>st\<close> can end, in the matcher's order of preference.  Without the
  MULTILINE flag \<open>^\<close> holds at the start of the text only, and \<open>$\<close> at its end or
  before a line feed that ends it.
\<close>

type_synonym mstate = "string \<times> string \<times> string list"

fun rmatch :: "regex \<Rightarrow> mstate \<Rightarrow> mstate list" where
  "rmatch Bol (pre, rest, gs) = (if pre = [] then [(pre, rest, gs)] else [])"
| "rmatch Eol (pre, rest, gs) = (if rest = [] \<or> rest = [LF] then [(pre, rest, gs)] else [])"
| "rmatch (Lit l) (pre, rest, gs) =
     (if take (length l) rest = l then [(pre @ l, drop (length l) rest, gs)] else [])"
| "rmatch (PlusClass rs) (pre, rest, gs) =
     map (\<lambda>(a, b). (pre @ a, b, gs)) (greedy (in_class rs) rest)"
| "rmatch (Cat r1 r2) st = concat (map (rmatch r2) (rmatch r1 st))"
| "rmatch (Group r) (pre, rest, gs) =
     map (\<lambda>(pre', rest', gs'). (pre', rest', gs' @ [drop (length pre) pre']))
       (rmatch r (pre, rest, gs))"

text \<open>
  \<open>re_search r pre rest\<close>: the leftmost match at or after the current position; the
  result is the text before the match and the state at its end.
\<close>

fun re_search :: "regex \<Rightarrow> string \<Rightarrow> string \<Rightarrow> (string \<times> mstate) option" where
  "re_search r pre [] =
     (case rmatch r (pre, [], []) of [] \<Rightarrow> None | m # _ \<Rightarrow> Some (pre, m))"
| "re_search r pre (c # cs) =
     (case rmatch r (pre, c # cs, []) of
        [] \<Rightarrow> re_search r (pre @ [c]) cs
      | m # _ \<Rightarrow> Some (pre, m))"

text \<open>
  \<open>re.split\<close>: the text between the matches, with the groups of each match after the
  piece it ends.  A match that consumes nothing ends the splitting here (Python splits on
  such a match as well); the pattern of \<open>main\<close> holds a literal and has none.
\<close>

function re_split_from :: "regex \<Rightarrow> string \<Rightarrow> string \<Rightarrow> string list" where
  "re_split_from r pre rest =
     (case re_search r pre rest of
        None \<Rightarrow> [rest]
      | Some (skipped, pre', rest', gs) \<Rightarrow>
          if length rest' < length rest
          then drop (length pre) skipped # gs @ re_split_from r pre' rest'
          else [rest])"
  by pat_completeness auto
termination
  by (relation "measure (\<lambda>(r, pre, rest). length rest)") auto

definition re_split :: "regex \<Rightarrow> string \<Rightarrow> string list" where
  "re_split r s = re_split_from r [] s"

text \<open>The pattern of line 14: \<open>^(SPVC_COMPILER_OPTION_)([A-Z]+_)([0-9A-Z_]+)$\<close>.\<close>

definition PREFIX :: string where
  "PREFIX = ''SPVC_COMPILER_OPTION_''"

definition upper_class :: "(char \<times> char) list" where
  "upper_class = [(CHR ''A'', CHR ''Z'')]"

definition suffix_class :: "(char \<times> char) list" where
  "suffix_class = [(CHR ''0'', CHR ''9''), (CHR ''A'', CHR ''Z''), (CHR ''_'', CHR ''_'')]"

definition option_pattern :: regex where
  "option_pattern =
     Cat Bol
       (Cat (Group (Lit PREFIX))
         (Cat (Group (Cat (PlusClass upper_class) (Lit ''_'')))
           (Cat (Group (PlusClass suffix_class)) Eol)))"

section \<open>The program\<close>

text \<open>
  The exceptions that \<open>main\<close> can raise: \<open>IndexError\<close> from an index out of
  range, \<open>OSError\<close> from \<open>open\<close> on a path that cannot be opened.
\<close>

datatype exn = IndexError | OSError string

text \<open>The f-string of lines 16 to 19, with its two placeholders.\<close>

definition snippet :: "string \<Rightarrow> string \<Rightarrow> string" where
  "snippet full name =
     [LF] @ ''    ///'' @ [LF] @
     ''    #[option('' @ full @ '', false)]'' @ [LF] @
     ''    pub '' @ name @ '': bool,''"

text \<open>
  The body of the loop, lines 13 to 19: the text that line 21 prints, or the exception
  raised.  \<open>matches[3]\<close> raises \<open>IndexError\<close> when the list has fewer than four
  entries.
\<close>

definition process_line :: "string \<Rightarrow> exn + string" where
  "process_line line =
     (let full = strip line;
          matches = re_split option_pattern full
      in if 3 < length matches
         then Inr (snippet full (lower (matches ! 3)))
         else Inl IndexError)"

text \<open>
  \<open>file.readline()\<close> on the unread text of the file: the line up to and with its line
  feed (or up to the end of the file), and the text left.  At the end of the file the
  line is empty.
\<close>

fun readline :: "string \<Rightarrow> string \<times> string" where
  "readline [] = ([], [])"
| "readline (c # cs) =
     (if c = LF then ([c], cs)
      else (case readline cs of (l, r) \<Rightarrow> (c # l, r)))"

lemma readline_le: "length (snd (readline s)) \<le> length s"
  by (induction s) (auto split: prod.splits)

lemma readline_shrinks: "fst (readline s) \<noteq> [] \<Longrightarrow> length (snd (readline s)) < length s"
  using readline_le [of "tl s"] by (cases s) (auto split: prod.splits)

text \<open>
  What a run of \<open>main\<close> leaves behind: the texts given to \<open>print\<close> on the standard
  output, in order; those given to \<open>print\<close> on the error stream; the text of the file
  that \<open>readline\<close> has not returned; and the exception raised or the value returned
  (\<open>None\<close> when the body runs to its end without a \<open>return\<close>).
\<close>

record outcome =
  printed :: "string list"
  errors :: "string list"
  unread :: string
  result :: "exn + int option"

text \<open>\<open>print\<close> writes its argument and a line feed: the text of a stream.\<close>

definition stream_text :: "string list \<Rightarrow> string" where
  "stream_text ps = concat (map (\<lambda>t. t @ [LF]) ps)"

text \<open>The loop of lines 12 to 21, from the unread text and the texts printed so far.\<close>

function loop :: "string \<Rightarrow> string list \<Rightarrow> outcome" where
  "loop content out =
     (case readline content of
        (line, rest) \<Rightarrow>
          if line = [] then \<lparr>printed = out, errors = [], unread = rest, result = Inr None\<rparr>
          else (case process_line line of
                  Inl e \<Rightarrow> \<lparr>printed = out, errors = [], unread = rest, result = Inl e\<rparr>
                | Inr txt \<Rightarrow> loop rest (out @ [txt])))"
  by pat_completeness auto
termination
proof (relation "measure (\<lambda>(content, out). length content)")
  show "wf (measure (\<lambda>(content, out). length content))"
    by simp
next
  fix content :: string and out :: "string list" and line rest block
  assume "(line, rest) = readline content" and "line \<noteq> []"
  then have "length rest < length content"
    using readline_shrinks [of content] by (metis fst_conv snd_conv)
  then show "((rest, out @ [block]), content, out) \<in> measure (\<lambda>(content, out). length content)"
    by simp
qed

text \<open>
  \<open>open(filename)\<close> reads in text mode with universal newlines: \<open>CR LF\<close> and a
  lone \<open>CR\<close> arrive as \<open>LF\<close>.
\<close>

fun universal_newlines :: "string \<Rightarrow> string" where
  "universal_newlines [] = []"
| "universal_newlines [c] = (if c = CR then [LF] else [c])"
| "universal_newlines (c # d # cs) =
     (if c = CR then (if d = LF then LF # universal_newlines cs
                      else LF # universal_newlines (d # cs))
      else c # universal_newlines (d # cs))"

text \<open>
  \<open>main\<close>, lines 4 to 21.  \<open>argv\<close> is \<open>sys.argv\<close> (the script's name first); the
  file system maps a path to the characters of the file there, or to nothing when
  \<open>open\<close> fails.
\<close>

definition main :: "string list \<Rightarrow> (string \<Rightarrow> string option) \<Rightarrow> outcome" where
  "main argv fs =
     (if 1 < length argv
      then (case fs (argv ! 1) of
              None \<Rightarrow> \<lparr>printed = [], errors = [], unread = [], result = Inl (OSError (argv ! 1))\<rparr>
            | Some raw \<Rightarrow> loop (universal_newlines raw) [])
      else \<lparr>printed = [], errors = [''Missing file argument.''], unread = [],
             result = Inr (Some 1)\<rparr>)"

text \<open>
  The run of the script, lines 24 and 25: \<open>main()\<close> is called and its value dropped.
  The interpreter ends with status 1 when an exception leaves \<open>main\<close>, after writing
  a traceback of it to the error stream, and with status 0 otherwise.  \<open>stdout\<close> and
  \<open>stderr\<close> are the texts that the calls of \<open>print\<close> wrote; the traceback is kept
  apart, as the exception it reports.
\<close>

record process =
  stdout :: string
  stderr :: string
  traceback :: "exn option"
  exit_status :: int

definition script :: "string list \<Rightarrow> (string \<Rightarrow> string option) \<Rightarrow> process" where
  "script argv fs =
     (let r = main argv fs
      in \<lparr>stdout = stream_text (printed r),
          stderr = stream_text (errors r),
          traceback = (case result r of Inl e \<Rightarrow> Some e | Inr v \<Rightarrow> None),
          exit_status = (case result r of Inl e \<Rightarrow> 1 | Inr v \<Rightarrow> 0)\<rparr>)"

section \<open>The specification's notions\<close>

text \<open>The character sets of the pattern, by code point: \<open>[A-Z]\<close> and \<open>[0-9A-Z_]\<close>.\<close>

definition is_upper :: "char \<Rightarrow> bool" where
  "is_upper c = (let n = (of_char c :: nat) in 65 \<le> n \<and> n \<le> 90)"

definition is_suffix_char :: "char \<Rightarrow> bool" where
  "is_suffix_char c =
     (let n = (of_char c :: nat)
      in (48 \<le> n \<and> n \<le> 57) \<or> (65 \<le> n \<and> n \<le> 90) \<or> n = 95)"

text \<open>
  The pattern in the specification's words: the literal prefix, then one or more
  upper-case letters, an underscore, and one or more characters of \<open>[0-9A-Z_]\<close>.
  \<open>decompositions t\<close> lists every way to cut \<open>t\<close> so: the letters of the
  category (its underscore left out) and the suffix, for each position of the
  underscore that fits.
\<close>

definition decompositions :: "string \<Rightarrow> (string \<times> string) list" where
  "decompositions t =
     (let r = drop (length PREFIX) t
      in if take (length PREFIX) t = PREFIX
         then [(take k r, drop (Suc k) r). k \<leftarrow> [0..<length r],
                 0 < k \<and> list_all is_upper (take k r) \<and> r ! k = CHR ''_'' \<and>
                 drop (Suc k) r \<noteq> [] \<and> list_all is_suffix_char (drop (Suc k) r)]
         else [])"

text \<open>A token matches the pattern when it has a decomposition.\<close>

definition well_formed :: "string \<Rightarrow> bool" where
  "well_formed t = (decompositions t \<noteq> [])"

text \<open>
  The derived field name of a token: its suffix in lower case; none for a token that
  does not match.
\<close>

definition field_name :: "string \<Rightarrow> string option" where
  "field_name t =
     (case decompositions t of
        [] \<Rightarrow> None
      | (cat, suf) # _ \<Rightarrow> Some (lower suf))"

text \<open>
  The block the specification describes for a line: the template with the stripped
  line and its field name; none for a line that does not match.
\<close>

definition expected_block :: "string \<Rightarrow> string option" where
  "expected_block line = map_option (snippet (strip line)) (field_name (strip line))"

text \<open>The lines of a text: what successive calls of \<open>readline\<close> return.\<close>

function file_lines :: "string \<Rightarrow> string list" where
  "file_lines s = (case readline s of (l, r) \<Rightarrow> if l = [] then [] else l # file_lines r)"
  by pat_completeness auto
termination
proof (relation "measure length")
  show "wf (measure length)"
    by simp
next
  fix s :: string and l r
  assume "(l, r) = readline s" and "l \<noteq> []"
  then have "length r < length s"
    using readline_shrinks [of s] by (metis fst_conv snd_conv)
  then show "(r, s) \<in> measure length"
    by simp
qed

declare re_split_from.simps [simp del] loop.simps [simp del] file_lines.simps [simp del]

section \<open>Lemmas\<close>

lemma in_upper_class: "in_class upper_class c = is_upper c"
  by (simp add: in_class_def upper_class_def is_upper_def Let_def)

lemma in_suffix_class: "in_class suffix_class c = is_suffix_char c"
  by (auto simp add: in_class_def suffix_class_def is_suffix_char_def Let_def)

lemma underscore_not_upper: "\<not> is_upper (CHR ''_'')"
  by (simp add: is_upper_def)

lemma suffix_char_not_LF: "is_suffix_char c \<Longrightarrow> c \<noteq> LF"
  by (auto simp add: is_suffix_char_def Let_def)

lemma LF_is_space: "is_space LF"
  by (simp add: is_space_def)

lemma greedy_then:
  assumes "\<And>a b. b \<noteq> [] \<Longrightarrow> p (hd b) \<Longrightarrow> f (a, b) = []"
  shows "concat (map f (greedy p s)) =
           (if takeWhile p s = [] then [] else f (takeWhile p s, dropWhile p s))"
  using assms
proof (induction s arbitrary: f)
  case Nil
  then show ?case by simp
next
  case (Cons c cs)
  show ?case
  proof (cases "p c")
    case False
    then show ?thesis by simp
  next
    case True
    let ?g = "\<lambda>(a, b). f (c # a, b)"
    have ih: "concat (map ?g (greedy p cs)) =
           (if takeWhile p cs = [] then [] else ?g (takeWhile p cs, dropWhile p cs))"
      by (rule Cons.IH [of ?g]) (use Cons.prems in simp)
    have m: "map f (map (\<lambda>(a, b). (c # a, b)) (greedy p cs)) = map ?g (greedy p cs)"
      by (simp add: case_prod_unfold)
    have split: "concat (map f (greedy p (c # cs))) = concat (map ?g (greedy p cs)) @ f ([c], cs)"
      using True by (simp add: case_prod_unfold comp_def)
    show ?thesis
    proof (cases "takeWhile p cs = []")
      case e: True
      then have "dropWhile p cs = cs"
        by (cases cs) (auto split: if_splits)
      then show ?thesis using True e split ih by simp
    next
      case ne: False
      then have "cs \<noteq> []" and "p (hd cs)"
        by (cases cs; auto split: if_splits)+
      then have "f ([c], cs) = []"
        using Cons.prems by blast
      then show ?thesis using True ne split ih by simp
    qed
  qed
qed

lemma category_match:
  "rmatch (Cat (PlusClass upper_class) (Lit ''_'')) (pre, rest, gs) =
     (if takeWhile is_upper rest \<noteq> [] \<and> take 1 (dropWhile is_upper rest) = ''_''
      then [(pre @ takeWhile is_upper rest @ ''_'', tl (dropWhile is_upper rest), gs)]
      else [])"
proof -
  let ?f = "\<lambda>(a, b). rmatch (Lit ''_'') (pre @ a, b, gs)"
  have fail: "\<And>a b. b \<noteq> [] \<Longrightarrow> is_upper (hd b) \<Longrightarrow> ?f (a, b) = []"
    using underscore_not_upper by (case_tac b) auto
  have "rmatch (Cat (PlusClass upper_class) (Lit ''_'')) (pre, rest, gs) =
          concat (map ?f (greedy is_upper rest))"
    by (simp add: in_upper_class [abs_def] case_prod_unfold comp_def)
  also have "\<dots> = (if takeWhile is_upper rest = [] then []
                    else ?f (takeWhile is_upper rest, dropWhile is_upper rest))"
    by (rule greedy_then [of is_upper ?f, OF fail])
  also have "\<dots> = (if takeWhile is_upper rest \<noteq> [] \<and> take 1 (dropWhile is_upper rest) = ''_''
      then [(pre @ takeWhile is_upper rest @ ''_'', tl (dropWhile is_upper rest), gs)]
      else [])"
    by (simp add: drop_Suc)
  finally show ?thesis .
qed

lemma suffix_match:
  "rmatch (Cat (Group (PlusClass suffix_class)) Eol) (pre, rest, gs) =
     (if takeWhile is_suffix_char rest \<noteq> [] \<and>
         (dropWhile is_suffix_char rest = [] \<or> dropWhile is_suffix_char rest = [LF])
      then [(pre @ takeWhile is_suffix_char rest, dropWhile is_suffix_char rest,
             gs @ [takeWhile is_suffix_char rest])]
      else [])"
proof -
  let ?f = "\<lambda>(a, b). rmatch Eol (pre @ a, b, gs @ [a])"
  have fail: "\<And>a b. b \<noteq> [] \<Longrightarrow> is_suffix_char (hd b) \<Longrightarrow> ?f (a, b) = []"
    using suffix_char_not_LF by (case_tac b) auto
  have "rmatch (Cat (Group (PlusClass suffix_class)) Eol) (pre, rest, gs) =
          concat (map ?f (greedy is_suffix_char rest))"
    by (simp add: in_suffix_class [abs_def] case_prod_unfold comp_def)
  also have "\<dots> = (if takeWhile is_suffix_char rest = [] then []
                    else ?f (takeWhile is_suffix_char rest, dropWhile is_suffix_char rest))"
    by (rule greedy_then [of is_suffix_char ?f, OF fail])
  finally show ?thesis by auto
qed

lemma option_pattern_match:
  "rmatch option_pattern ([], t, []) =
     (let r = drop (length PREFIX) t;
          cat = takeWhile is_upper r;
          suf = takeWhile is_suffix_char (tl (dropWhile is_upper r));
          r3 = dropWhile is_suffix_char (tl (dropWhile is_upper r))
      in if take (length PREFIX) t = PREFIX \<and> cat \<noteq> [] \<and>
            take 1 (dropWhile is_upper r) = ''_'' \<and> suf \<noteq> [] \<and> (r3 = [] \<or> r3 = [LF])
         then [(PREFIX @ cat @ ''_'' @ suf, r3, [PREFIX, cat @ ''_'', suf])]
         else [])"
proof -
  note cat = rmatch.simps(5)
  show ?thesis
    unfolding option_pattern_def
    by (auto simp add: cat [of Bol] cat [of "Group (Lit PREFIX)"]
          cat [of "Group (Cat (PlusClass upper_class) (Lit ''_''))"]
          category_match suffix_match Let_def
        simp del: rmatch.simps(5))
qed

lemma bol_later: "pre \<noteq> [] \<Longrightarrow> rmatch option_pattern (pre, rest, gs) = []"
  by (simp add: option_pattern_def)

lemma re_search_later: "pre \<noteq> [] \<Longrightarrow> re_search option_pattern pre rest = None"
  by (induction rest arbitrary: pre) (simp_all add: bol_later)

lemma re_search_start:
  "re_search option_pattern [] t =
     (case rmatch option_pattern ([], t, []) of [] \<Rightarrow> None | m # _ \<Rightarrow> Some ([], m))"
  by (cases t) (simp_all add: re_search_later split: list.splits)

lemma decompositions_iff:
  "(cat, suf) \<in> set (decompositions t) \<longleftrightarrow>
     t = PREFIX @ cat @ ''_'' @ suf \<and> cat \<noteq> [] \<and> list_all is_upper cat \<and>
     suf \<noteq> [] \<and> list_all is_suffix_char suf"
proof
  assume "(cat, suf) \<in> set (decompositions t)"
  then have p: "take (length PREFIX) t = PREFIX"
    by (auto simp add: decompositions_def Let_def split: if_splits)
  define r where "r = drop (length PREFIX) t"
  have "(cat, suf) \<in> set [(take k r, drop (Suc k) r). k \<leftarrow> [0..<length r],
                 0 < k \<and> list_all is_upper (take k r) \<and> r ! k = CHR ''_'' \<and>
                 drop (Suc k) r \<noteq> [] \<and> list_all is_suffix_char (drop (Suc k) r)]"
    using \<open>(cat, suf) \<in> set (decompositions t)\<close>
    unfolding decompositions_def Let_def r_def p by (simp only: simp_thms if_True)
  then obtain k where k: "k < length r" "cat = take k r" "suf = drop (Suc k) r" "0 < k"
    "list_all is_upper (take k r)" "r ! k = CHR ''_''" "drop (Suc k) r \<noteq> []"
    "list_all is_suffix_char (drop (Suc k) r)"
    by (auto split: if_splits)
  have "r = take k r @ r ! k # drop (Suc k) r"
    using k(1) by (rule id_take_nth_drop)
  then have "r = cat @ ''_'' @ suf"
    using k by simp
  moreover have "t = PREFIX @ r"
    using p by (metis append_take_drop_id r_def)
  ultimately show "t = PREFIX @ cat @ ''_'' @ suf \<and> cat \<noteq> [] \<and> list_all is_upper cat \<and>
     suf \<noteq> [] \<and> list_all is_suffix_char suf"
    using k by auto
next
  assume a: "t = PREFIX @ cat @ ''_'' @ suf \<and> cat \<noteq> [] \<and> list_all is_upper cat \<and>
     suf \<noteq> [] \<and> list_all is_suffix_char suf"
  define r where "r = drop (length PREFIX) t"
  have r: "r = cat @ ''_'' @ suf" and p: "take (length PREFIX) t = PREFIX"
    using a by (simp_all add: r_def)
  have "length cat < length r" "cat = take (length cat) r" "suf = drop (Suc (length cat)) r"
    "r ! length cat = CHR ''_''"
    by (simp_all add: r nth_append)
  then show "(cat, suf) \<in> set (decompositions t)"
    using a p unfolding decompositions_def Let_def r_def [symmetric]
    by (auto intro!: bexI [of _ "length cat"])
qed

lemma decomposition_parts:
  assumes "(cat, suf) \<in> set (decompositions t)"
  shows "take (length PREFIX) t = PREFIX"
    and "takeWhile is_upper (drop (length PREFIX) t) = cat"
    and "dropWhile is_upper (drop (length PREFIX) t) = ''_'' @ suf"
    and "takeWhile is_suffix_char suf = suf"
    and "dropWhile is_suffix_char suf = []"
  using assms underscore_not_upper
  by (simp_all add: decompositions_iff list_all_iff takeWhile_eq_all_conv)

lemma decomposition_unique:
  assumes "(cat, suf) \<in> set (decompositions t)" and "(cat', suf') \<in> set (decompositions t)"
  shows "cat = cat' \<and> suf = suf'"
proof -
  have "cat = cat'"
    using decomposition_parts(2) [OF assms(1)] decomposition_parts(2) [OF assms(2)] by simp
  moreover have "''_'' @ suf = ''_'' @ suf'"
    using decomposition_parts(3) [OF assms(1)] decomposition_parts(3) [OF assms(2)] by simp
  ultimately show ?thesis by simp
qed

lemma match_well_formed:
  assumes "(cat, suf) \<in> set (decompositions t)"
  shows "rmatch option_pattern ([], t, []) = [(t, [], [PREFIX, cat @ ''_'', suf])]"
proof -
  have t: "t = PREFIX @ cat @ ''_'' @ suf" and ne: "cat \<noteq> []" "suf \<noteq> []"
    using assms by (simp_all add: decompositions_iff)
  show ?thesis
    unfolding option_pattern_match Let_def decomposition_parts [OF assms]
    using t ne by (simp add: decomposition_parts(4,5) [OF assms])
qed

lemma match_ill_formed:
  assumes "decompositions t = []" and "t = [] \<or> last t \<noteq> LF"
  shows "rmatch option_pattern ([], t, []) = []"
proof (rule ccontr)
  assume "rmatch option_pattern ([], t, []) \<noteq> []"
  define r where "r = drop (length PREFIX) t"
  define cat where "cat = takeWhile is_upper r"
  define r2 where "r2 = tl (dropWhile is_upper r)"
  define suf where "suf = takeWhile is_suffix_char r2"
  define r3 where "r3 = dropWhile is_suffix_char r2"
  from \<open>rmatch option_pattern ([], t, []) \<noteq> []\<close>
  have c: "take (length PREFIX) t = PREFIX" "cat \<noteq> []" "take 1 (dropWhile is_upper r) = ''_''"
    "suf \<noteq> []" "r3 = [] \<or> r3 = [LF]"
    unfolding option_pattern_match Let_def r_def cat_def r2_def suf_def r3_def
    by (auto split: if_splits)
  have "dropWhile is_upper r = ''_'' @ r2"
    using c(3) unfolding r2_def by (cases "dropWhile is_upper r") auto
  then have "r = cat @ ''_'' @ r2"
    unfolding cat_def by (metis takeWhile_dropWhile_id)
  moreover have "r2 = suf @ r3"
    unfolding suf_def r3_def by simp
  moreover have "t = PREFIX @ r"
    using c(1) by (metis append_take_drop_id r_def)
  ultimately have t: "t = PREFIX @ cat @ ''_'' @ suf @ r3"
    by simp
  have up: "list_all is_upper cat" and sf: "list_all is_suffix_char suf"
    unfolding cat_def suf_def list_all_iff by (auto dest: set_takeWhileD)
  show False
  proof (cases "r3 = []")
    case True
    then have "(cat, suf) \<in> set (decompositions t)"
      using t c up sf by (simp add: decompositions_iff)
    then show False using assms(1) by simp
  next
    case False
    then have "r3 = [LF]" using c(5) by simp
    then have "t \<noteq> []" "last t = LF" using t by simp_all
    then show False using assms(2) by simp
  qed
qed

lemma split_well_formed:
  assumes "(cat, suf) \<in> set (decompositions t)"
  shows "re_split option_pattern t = [[], PREFIX, cat @ ''_'', suf, []]"
proof -
  have t: "t = PREFIX @ cat @ ''_'' @ suf"
    using assms by (simp add: decompositions_iff)
  then have ne: "t \<noteq> []"
    by (simp add: PREFIX_def)
  have s: "re_search option_pattern [] t = Some ([], t, [], [PREFIX, cat @ ''_'', suf])"
    by (simp add: re_search_start match_well_formed [OF assms])
  have "re_split_from option_pattern t [] = [[]]"
    by (subst re_split_from.simps) (simp add: bol_later [OF ne])
  then show ?thesis
    unfolding re_split_def
    by (subst re_split_from.simps) (simp add: s ne)
qed

lemma split_ill_formed:
  assumes "decompositions t = []" and "t = [] \<or> last t \<noteq> LF"
  shows "re_split option_pattern t = [t]"
  unfolding re_split_def
  by (subst re_split_from.simps) (simp add: re_search_start match_ill_formed [OF assms])

lemma strip_end: "strip s = [] \<or> \<not> is_space (last (strip s))"
proof (cases "strip s = []")
  case True
  then show ?thesis by simp
next
  case False
  define u where "u = dropWhile is_space (rev (dropWhile is_space s))"
  have u: "u \<noteq> []" and s: "strip s = rev u"
    using False by (simp_all add: strip_def u_def)
  have "\<not> is_space (hd u)"
    using u unfolding u_def by (rule hd_dropWhile)
  then show ?thesis using u s by (simp add: last_rev)
qed

lemma strip_no_LF: "strip s = [] \<or> last (strip s) \<noteq> LF"
  using strip_end [of s] LF_is_space by auto

lemma process_line_well_formed:
  assumes "(cat, suf) \<in> set (decompositions (strip line))"
  shows "process_line line = Inr (snippet (strip line) (lower suf))"
  by (simp add: process_line_def split_well_formed [OF assms])

lemma process_line_ill_formed:
  assumes "\<not> well_formed (strip line)"
  shows "process_line line = Inl IndexError"
  using assms split_ill_formed [OF _ strip_no_LF, of line]
  by (simp add: process_line_def well_formed_def)

lemma expected_block_well_formed:
  assumes "(cat, suf) \<in> set (decompositions (strip line))"
  shows "expected_block line = Some (snippet (strip line) (lower suf))"
proof (cases "decompositions (strip line)")
  case Nil
  then show ?thesis using assms by simp
next
  case (Cons d ds)
  obtain cat' suf' where d: "d = (cat', suf')" by (cases d)
  then have "(cat', suf') \<in> set (decompositions (strip line))"
    using Cons by simp
  then have "suf' = suf"
    using decomposition_unique [OF assms] by blast
  then show ?thesis by (simp add: expected_block_def field_name_def Cons d)
qed

lemma process_line_expected:
  "process_line line =
     (case expected_block line of None \<Rightarrow> Inl IndexError | Some block \<Rightarrow> Inr block)"
proof (cases "decompositions (strip line)")
  case Nil
  then show ?thesis
    using process_line_ill_formed [of line] by (simp add: expected_block_def field_name_def well_formed_def)
next
  case (Cons d ds)
  obtain cat suf where d: "d = (cat, suf)" by (cases d)
  then have m: "(cat, suf) \<in> set (decompositions (strip line))"
    using Cons by simp
  show ?thesis
    by (simp add: process_line_well_formed [OF m] expected_block_well_formed [OF m])
qed

lemma well_formed_expected: "well_formed (strip line) \<longleftrightarrow> expected_block line \<noteq> None"
  by (simp add: well_formed_def expected_block_def field_name_def split: list.splits prod.splits)

lemma readline_append: "fst (readline s) @ snd (readline s) = s"
  by (induction s) (auto split: prod.splits)

lemma readline_empty: "fst (readline s) = [] \<longleftrightarrow> s = []"
  by (cases s) (auto split: prod.splits)

lemma file_lines_Nil: "file_lines [] = []"
  by (subst file_lines.simps) simp

lemma file_lines_Cons:
  "readline s = (l, r) \<Longrightarrow> l \<noteq> [] \<Longrightarrow> file_lines s = l # file_lines r"
  by (subst file_lines.simps) simp

lemma file_lines_concat: "concat (file_lines s) = s"
proof (induction s rule: file_lines.induct)
  case (1 s)
  obtain l r where lr: "readline s = (l, r)" by (cases "readline s")
  show ?case
  proof (cases "l = []")
    case True
    then have "s = []" using lr readline_empty [of s] by simp
    then show ?thesis by (simp add: file_lines_Nil)
  next
    case False
    have "concat (file_lines r) = r"
      using 1 [OF lr [symmetric] False] .
    moreover have "l @ r = s"
      using readline_append [of s] lr by simp
    ultimately show ?thesis
      by (simp add: file_lines_Cons [OF lr False])
  qed
qed

lemma loop_lines:
  "loop c out =
     \<lparr>printed = out @ List.map_filter expected_block
                         (takeWhile (\<lambda>l. well_formed (strip l)) (file_lines c)),
      errors = [],
      unread = concat (tl (dropWhile (\<lambda>l. well_formed (strip l)) (file_lines c))),
      result = (if list_all (\<lambda>l. well_formed (strip l)) (file_lines c)
                then Inr None else Inl IndexError)\<rparr>"
proof (induction c out rule: loop.induct)
  case (1 content out)
  obtain l r where lr: "readline content = (l, r)" by (cases "readline content")
  show ?case
  proof (cases "l = []")
    case True
    then have "content = []" using lr readline_empty [of content] by simp
    then show ?thesis
      by (subst loop.simps) (simp add: file_lines_Nil map_filter_simps)
  next
    case False
    note fl = file_lines_Cons [OF lr False]
    show ?thesis
    proof (cases "expected_block l")
      case None
      then have "\<not> well_formed (strip l)" and "process_line l = Inl IndexError"
        by (simp_all add: well_formed_expected process_line_expected)
      then show ?thesis
        by (subst loop.simps) (simp add: lr False fl map_filter_simps file_lines_concat)
    next
      case (Some block)
      then have w: "well_formed (strip l)" and p: "process_line l = Inr block"
        by (simp_all add: well_formed_expected process_line_expected)
      have "loop content out = loop r (out @ [block])"
        by (subst loop.simps) (simp add: lr False p)
      also note 1 [OF lr [symmetric] False p]
      finally show ?thesis
        by (simp add: fl w Some map_filter_simps)
    qed
  qed
qed

lemma map_filter_all:
  "list_all (\<lambda>x. f x \<noteq> None) xs \<Longrightarrow> map Some (List.map_filter f xs) = map f xs"
  by (induction xs) (auto simp add: map_filter_simps)

lemma field_name_well_formed:
  assumes "(cat, suf) \<in> set (decompositions t)"
  shows "field_name t = Some (lower suf)"
proof (cases "decompositions t")
  case Nil
  then show ?thesis using assms by simp
next
  case (Cons d ds)
  obtain cat' suf' where d: "d = (cat', suf')" by (cases d)
  then have "(cat', suf') \<in> set (decompositions t)"
    using Cons by simp
  then have "suf' = suf"
    using decomposition_unique [OF assms] by blast
  then show ?thesis by (simp add: field_name_def Cons d)
qed

lemma well_formed_field: "well_formed t \<longleftrightarrow> field_name t \<noteq> None"
  by (simp add: well_formed_def field_name_def split: list.splits prod.splits)

lemma main_with_path:
  "fs path = Some raw \<Longrightarrow> main (prog # path # extra) fs = loop (universal_newlines raw) []"
  by (simp add: main_def)

lemma good_lines_blocks:
  "map Some (List.map_filter expected_block (takeWhile (\<lambda>l. well_formed (strip l)) ls)) =
     map expected_block (takeWhile (\<lambda>l. well_formed (strip l)) ls)"
proof (rule map_filter_all)
  show "list_all (\<lambda>x. expected_block x \<noteq> None) (takeWhile (\<lambda>l. well_formed (strip l)) ls)"
    unfolding list_all_iff by (auto dest: set_takeWhileD simp add: well_formed_expected)
qed

lemma stream_of_blocks:
  "list_all (\<lambda>l. well_formed (strip l)) ls \<Longrightarrow>
   stream_text (List.map_filter expected_block ls) =
     concat (map (\<lambda>l. case field_name (strip l) of
                         None \<Rightarrow> []
                       | Some name \<Rightarrow>
                           [LF] @ ''    ///'' @ [LF] @
                           ''    #[option('' @ strip l @ '', false)]'' @ [LF] @
                           ''    pub '' @ name @ '': bool,'' @ [LF]) ls)"
  by (induction ls)
     (auto simp add: map_filter_simps stream_text_def expected_block_def snippet_def
        well_formed_field)

lemma decompositions_Nil: "decompositions [] = []"
  by (simp add: decompositions_def PREFIX_def)

lemma no_empty_suffix:
  assumes "list_all is_upper u"
  shows "decompositions (PREFIX @ u @ ''_'') = []"
proof (rule ccontr)
  assume "decompositions (PREFIX @ u @ ''_'') \<noteq> []"
  then obtain cat suf where m: "(cat, suf) \<in> set (decompositions (PREFIX @ u @ ''_''))"
    by (cases "decompositions (PREFIX @ u @ ''_'')") auto
  have "takeWhile is_upper (drop (length PREFIX) (PREFIX @ u @ ''_'')) = u"
    using assms underscore_not_upper by (simp add: list_all_iff)
  then have c: "cat = u"
    using decomposition_parts(2) [OF m] by simp
  have "PREFIX @ u @ ''_'' = PREFIX @ cat @ ''_'' @ suf" and "suf \<noteq> []"
    using m by (simp_all add: decompositions_iff)
  then show False using c by simp
qed

section \<open>The claims\<close>

text \<open>
  C1 (well-formed round trip).  Whenever the stripped text of a line matches the
  pattern, with suffix \<open>suf\<close>, the body of the loop produces the template with the
  stripped line, unchanged, in the place of \<open>{full}\<close> and the suffix in lower case in
  the place of \<open>{name}\<close>; the suffix is the entry of index 3 of the list that
  \<open>re.split\<close> returns.
\<close>

theorem line_round_trip:
  assumes "(cat, suf) \<in> set (decompositions (strip line))"
  shows "process_line line = Inr (snippet (strip line) (lower suf)) \<and>
         re_split option_pattern (strip line) ! 3 = suf \<and>
         snippet (strip line) (lower suf) =
           [LF] @ ''    ///'' @ [LF] @
           ''    #[option('' @ strip line @ '', false)]'' @ [LF] @
           ''    pub '' @ lower suf @ '': bool,''"
  using process_line_well_formed [OF assms] split_well_formed [OF assms]
  by (simp add: snippet_def)

theorem line_round_trip_witness:
  "(''GLSL'', ''VERSION'') \<in>
     set (decompositions (strip (''  SPVC_COMPILER_OPTION_GLSL_VERSION'' @ [LF]))) \<and>
   process_line (''  SPVC_COMPILER_OPTION_GLSL_VERSION'' @ [LF]) =
     Inr ([LF] @ ''    ///'' @ [LF] @
          ''    #[option(SPVC_COMPILER_OPTION_GLSL_VERSION, false)]'' @ [LF] @
          ''    pub version: bool,'')"
proof -
  have s: "strip (''  SPVC_COMPILER_OPTION_GLSL_VERSION'' @ [LF]) =
             ''SPVC_COMPILER_OPTION_GLSL_VERSION''"
    by code_simp
  have h: "(''GLSL'', ''VERSION'') \<in>
             set (decompositions (strip (''  SPVC_COMPILER_OPTION_GLSL_VERSION'' @ [LF])))"
    unfolding s by code_simp
  have l: "lower ''VERSION'' = ''version''"
    by code_simp
  have "process_line (''  SPVC_COMPILER_OPTION_GLSL_VERSION'' @ [LF]) =
          Inr (snippet ''SPVC_COMPILER_OPTION_GLSL_VERSION'' ''version'')"
    using line_round_trip [OF h] unfolding s l by (rule conjunct1)
  then show ?thesis
    using h by (simp add: snippet_def)
qed

text \<open>
  C2 (malformed line).  When some line of the file does not match the pattern after
  stripping, take the first such line: \<open>re.split\<close> returns the stripped line alone,
  so that \<open>matches[3]\<close> raises \<open>IndexError\<close>; the exception leaves \<open>main\<close>;
  the blocks printed are those of the lines before it, in order; every line after it
  is left unread; nothing is printed on the error stream.
\<close>

theorem malformed_line_aborts:
  assumes "fs path = Some raw"
    and "\<not> list_all (\<lambda>l. well_formed (strip l)) (file_lines (universal_newlines raw))"
  shows "let ls = file_lines (universal_newlines raw);
             good = takeWhile (\<lambda>l. well_formed (strip l)) ls;
             bad = dropWhile (\<lambda>l. well_formed (strip l)) ls;
             r = main (prog # path # extra) fs
         in bad \<noteq> [] \<and>
            re_split option_pattern (strip (hd bad)) = [strip (hd bad)] \<and>
            process_line (hd bad) = Inl IndexError \<and>
            result r = Inl IndexError \<and>
            map Some (printed r) = map expected_block good \<and>
            unread r = concat (tl bad) \<and>
            errors r = [] \<and>
            traceback (script (prog # path # extra) fs) = Some IndexError"
proof -
  define ls where "ls = file_lines (universal_newlines raw)"
  define bad where "bad = dropWhile (\<lambda>l. well_formed (strip l)) ls"
  have ne: "bad \<noteq> []"
    using assms(2) unfolding bad_def ls_def list_all_iff by simp
  then have nw: "\<not> well_formed (strip (hd bad))"
    unfolding bad_def by (rule hd_dropWhile)
  then have d: "decompositions (strip (hd bad)) = []"
    by (simp add: well_formed_def)
  have sp: "re_split option_pattern (strip (hd bad)) = [strip (hd bad)]"
    using d strip_no_LF by (rule split_ill_formed)
  have m: "main (prog # path # extra) fs = loop (universal_newlines raw) []"
    using assms(1) by (rule main_with_path)
  show ?thesis
    unfolding Let_def m script_def loop_lines ls_def [symmetric] bad_def [symmetric]
    using ne sp process_line_ill_formed [OF nw] assms(2) good_lines_blocks [of ls]
    by (simp add: ls_def)
qed

theorem malformed_line_aborts_witness:
  "\<not> list_all (\<lambda>l. well_formed (strip l))
       (file_lines (universal_newlines
          (''SPVC_COMPILER_OPTION_A_B'' @ [LF] @ ''bad line'' @ [LF] @
           ''SPVC_COMPILER_OPTION_C_D'' @ [LF]))) \<and>
   printed (main [''gen_opts.py'', ''opts.txt'']
      [''opts.txt'' \<mapsto> ''SPVC_COMPILER_OPTION_A_B'' @ [LF] @ ''bad line'' @ [LF] @
           ''SPVC_COMPILER_OPTION_C_D'' @ [LF]]) =
     [snippet ''SPVC_COMPILER_OPTION_A_B'' ''b''] \<and>
   unread (main [''gen_opts.py'', ''opts.txt'']
      [''opts.txt'' \<mapsto> ''SPVC_COMPILER_OPTION_A_B'' @ [LF] @ ''bad line'' @ [LF] @
           ''SPVC_COMPILER_OPTION_C_D'' @ [LF]]) =
     ''SPVC_COMPILER_OPTION_C_D'' @ [LF] \<and>
   result (main [''gen_opts.py'', ''opts.txt'']
      [''opts.txt'' \<mapsto> ''SPVC_COMPILER_OPTION_A_B'' @ [LF] @ ''bad line'' @ [LF] @
           ''SPVC_COMPILER_OPTION_C_D'' @ [LF]]) =
     Inl IndexError"
proof -
  let ?raw = "''SPVC_COMPILER_OPTION_A_B'' @ [LF] @ ''bad line'' @ [LF] @
           ''SPVC_COMPILER_OPTION_C_D'' @ [LF]"
  let ?fs = "[''opts.txt'' \<mapsto> ?raw]"
  have h1: "?fs ''opts.txt'' = Some ?raw"
    by simp
  have h2: "\<not> list_all (\<lambda>l. well_formed (strip l)) (file_lines (universal_newlines ?raw))"
    by code_simp
  have e1: "map expected_block
              (takeWhile (\<lambda>l. well_formed (strip l)) (file_lines (universal_newlines ?raw))) =
            [Some (snippet ''SPVC_COMPILER_OPTION_A_B'' ''b'')]"
    by code_simp
  have e2: "concat (tl (dropWhile (\<lambda>l. well_formed (strip l))
              (file_lines (universal_newlines ?raw)))) = ''SPVC_COMPILER_OPTION_C_D'' @ [LF]"
    by code_simp
  note t = malformed_line_aborts [where fs = "?fs" and path = "''opts.txt''" and raw = "?raw"
      and prog = "''gen_opts.py''" and extra = "[]", OF h1 h2, unfolded Let_def]
  show ?thesis
    using h2 t e1 e2 by auto
qed

text \<open>
  C4 (order preservation).  When every line of the file matches the pattern after
  stripping, \<open>main\<close> prints as many blocks as the file has lines, and the block at
  each position is the block of the line at that position: nothing is reordered,
  dropped or merged.
\<close>

theorem blocks_in_order:
  assumes "fs path = Some raw"
    and "list_all (\<lambda>l. well_formed (strip l)) (file_lines (universal_newlines raw))"
  shows "length (printed (main (prog # path # extra) fs)) =
           length (file_lines (universal_newlines raw)) \<and>
         map Some (printed (main (prog # path # extra) fs)) =
           map expected_block (file_lines (universal_newlines raw)) \<and>
         result (main (prog # path # extra) fs) = Inr None"
proof -
  define ls where "ls = file_lines (universal_newlines raw)"
  have all: "list_all (\<lambda>l. well_formed (strip l)) ls"
    using assms(2) by (simp add: ls_def)
  then have t: "takeWhile (\<lambda>l. well_formed (strip l)) ls = ls"
    by (simp add: list_all_iff)
  have m: "main (prog # path # extra) fs = loop (universal_newlines raw) []"
    using assms(1) by (rule main_with_path)
  have b: "map Some (List.map_filter expected_block ls) = map expected_block ls"
    using good_lines_blocks [of ls] unfolding t .
  then have "length (map Some (List.map_filter expected_block ls)) = length (map expected_block ls)"
    by simp
  then have n: "length (List.map_filter expected_block ls) = length ls"
    by simp
  show ?thesis
    unfolding m loop_lines ls_def [symmetric]
    using all b n by (simp add: t)
qed

theorem blocks_in_order_witness:
  "list_all (\<lambda>l. well_formed (strip l))
       (file_lines (universal_newlines
          (''SPVC_COMPILER_OPTION_B_Z'' @ [LF] @ ''SPVC_COMPILER_OPTION_A_Y'' @ [CR, LF] @
           ''SPVC_COMPILER_OPTION_B_Z''))) \<and>
   printed (main [''gen_opts.py'', ''opts.txt'']
      [''opts.txt'' \<mapsto> ''SPVC_COMPILER_OPTION_B_Z'' @ [LF] @
           ''SPVC_COMPILER_OPTION_A_Y'' @ [CR, LF] @ ''SPVC_COMPILER_OPTION_B_Z'']) =
     [snippet ''SPVC_COMPILER_OPTION_B_Z'' ''z'',
      snippet ''SPVC_COMPILER_OPTION_A_Y'' ''y'',
      snippet ''SPVC_COMPILER_OPTION_B_Z'' ''z'']"
proof -
  let ?raw = "''SPVC_COMPILER_OPTION_B_Z'' @ [LF] @ ''SPVC_COMPILER_OPTION_A_Y'' @ [CR, LF] @
           ''SPVC_COMPILER_OPTION_B_Z''"
  let ?fs = "[''opts.txt'' \<mapsto> ?raw]"
  have h1: "?fs ''opts.txt'' = Some ?raw"
    by simp
  have h2: "list_all (\<lambda>l. well_formed (strip l)) (file_lines (universal_newlines ?raw))"
    by code_simp
  have e1: "map expected_block (file_lines (universal_newlines ?raw)) =
            [Some (snippet ''SPVC_COMPILER_OPTION_B_Z'' ''z''),
             Some (snippet ''SPVC_COMPILER_OPTION_A_Y'' ''y''),
             Some (snippet ''SPVC_COMPILER_OPTION_B_Z'' ''z'')]"
    by code_simp
  note t = blocks_in_order [where fs = "?fs" and path = "''opts.txt''" and raw = "?raw"
      and prog = "''gen_opts.py''" and extra = "[]", OF h1 h2]
  show ?thesis
    using h2 t e1 by auto
qed

text \<open>
  C5 (output format).  When every line of the file matches, the text on the standard
  output is the concatenation, in the order of the lines, of one block per line: an
  empty line, the line \<open>    ///\<close>, the line \<open>    #[option(FULL, false)]\<close> with the
  stripped line for \<open>FULL\<close>, and the line \<open>    pub FIELD: bool,\<close> with the field
  name for \<open>FIELD\<close>, each ended by a line feed (the last one is the line feed that
  \<open>print\<close> adds), with nothing between two blocks.
\<close>

theorem block_template:
  assumes "fs path = Some raw"
    and "list_all (\<lambda>l. well_formed (strip l)) (file_lines (universal_newlines raw))"
  shows "stdout (script (prog # path # extra) fs) =
           concat (map (\<lambda>l. case field_name (strip l) of
                               None \<Rightarrow> []
                             | Some name \<Rightarrow>
                                 [LF] @ ''    ///'' @ [LF] @
                                 ''    #[option('' @ strip l @ '', false)]'' @ [LF] @
                                 ''    pub '' @ name @ '': bool,'' @ [LF])
                    (file_lines (universal_newlines raw)))"
proof -
  define ls where "ls = file_lines (universal_newlines raw)"
  have all: "list_all (\<lambda>l. well_formed (strip l)) ls"
    using assms(2) by (simp add: ls_def)
  then have t: "takeWhile (\<lambda>l. well_formed (strip l)) ls = ls"
    by (simp add: list_all_iff)
  have m: "main (prog # path # extra) fs = loop (universal_newlines raw) []"
    using assms(1) by (rule main_with_path)
  have "stdout (script (prog # path # extra) fs) =
          stream_text (List.map_filter expected_block ls)"
    unfolding script_def m loop_lines ls_def [symmetric] by (simp add: t)
  also note stream_of_blocks [OF all]
  finally show ?thesis
    unfolding ls_def .
qed

theorem block_template_witness:
  "list_all (\<lambda>l. well_formed (strip l))
       (file_lines (universal_newlines
          (''SPVC_COMPILER_OPTION_MSL_ARGUMENT_BUFFERS'' @ [LF] @
           ''SPVC_COMPILER_OPTION_GLSL_VERSION'' @ [LF]))) \<and>
   stdout (script [''gen_opts.py'', ''opts.txt'']
      [''opts.txt'' \<mapsto> ''SPVC_COMPILER_OPTION_MSL_ARGUMENT_BUFFERS'' @ [LF] @
           ''SPVC_COMPILER_OPTION_GLSL_VERSION'' @ [LF]]) =
     [LF] @ ''    ///'' @ [LF] @
     ''    #[option(SPVC_COMPILER_OPTION_MSL_ARGUMENT_BUFFERS, false)]'' @ [LF] @
     ''    pub argument_buffers: bool,'' @ [LF] @
     [LF] @ ''    ///'' @ [LF] @
     ''    #[option(SPVC_COMPILER_OPTION_GLSL_VERSION, false)]'' @ [LF] @
     ''    pub version: bool,'' @ [LF]"
proof -
  let ?raw = "''SPVC_COMPILER_OPTION_MSL_ARGUMENT_BUFFERS'' @ [LF] @
           ''SPVC_COMPILER_OPTION_GLSL_VERSION'' @ [LF]"
  let ?fs = "[''opts.txt'' \<mapsto> ?raw]"
  have h1: "?fs ''opts.txt'' = Some ?raw"
    by simp
  have h2: "list_all (\<lambda>l. well_formed (strip l)) (file_lines (universal_newlines ?raw))"
    by code_simp
  have e1: "concat (map (\<lambda>l. case field_name (strip l) of
                               None \<Rightarrow> []
                             | Some name \<Rightarrow>
                                 [LF] @ ''    ///'' @ [LF] @
                                 ''    #[option('' @ strip l @ '', false)]'' @ [LF] @
                                 ''    pub '' @ name @ '': bool,'' @ [LF])
                    (file_lines (universal_newlines ?raw))) =
     [LF] @ ''    ///'' @ [LF] @
     ''    #[option(SPVC_COMPILER_OPTION_MSL_ARGUMENT_BUFFERS, false)]'' @ [LF] @
     ''    pub argument_buffers: bool,'' @ [LF] @
     [LF] @ ''    ///'' @ [LF] @
     ''    #[option(SPVC_COMPILER_OPTION_GLSL_VERSION, false)]'' @ [LF] @
     ''    pub version: bool,'' @ [LF]"
    by code_simp
  note t = block_template [where fs = "?fs" and path = "''opts.txt''" and raw = "?raw"
      and prog = "''gen_opts.py''" and extra = "[]", OF h1 h2]
  show ?thesis
    using h2 t e1 by simp
qed

text \<open>
  C3 (missing argument).  With no path argument, \<open>main\<close> prints nothing on the
  standard output, prints \<open>Missing file argument.\<close> on the error stream, reads no
  file and returns 1.  The script calls \<open>main()\<close> and drops the value returned, so
  the run ends with status 0, not with a non-zero status.
\<close>

theorem missing_argument_status:
  "script [prog] fs =
     \<lparr>stdout = [], stderr = ''Missing file argument.'' @ [LF], traceback = None,
      exit_status = 0\<rparr> \<and>
   main [prog] fs =
     \<lparr>printed = [], errors = [''Missing file argument.''], unread = [],
      result = Inr (Some 1)\<rparr>"
  by (simp add: script_def main_def stream_text_def)

text \<open>
  C6 (scenario A).  On the token \<open>SPVC_COMPILER_OPTION_MSL_ARGUMENT_BUFFERS\<close> the
  groups are the prefix, \<open>MSL_\<close> and \<open>ARGUMENT_BUFFERS\<close>; for a file holding that
  one line, with or without a line feed at its end, \<open>main\<close> prints one block, whose
  two placeholders are the token and \<open>argument_buffers\<close>.
\<close>

theorem scenario_a:
  "re_split option_pattern ''SPVC_COMPILER_OPTION_MSL_ARGUMENT_BUFFERS'' =
     [[], ''SPVC_COMPILER_OPTION_'', ''MSL_'', ''ARGUMENT_BUFFERS'', []] \<and>
   main [''gen_opts.py'', ''opts.txt'']
        [''opts.txt'' \<mapsto> ''SPVC_COMPILER_OPTION_MSL_ARGUMENT_BUFFERS'' @ [LF]] =
     \<lparr>printed = [[LF] @ ''    ///'' @ [LF] @
                  ''    #[option(SPVC_COMPILER_OPTION_MSL_ARGUMENT_BUFFERS, false)]'' @ [LF] @
                  ''    pub argument_buffers: bool,''],
      errors = [], unread = [], result = Inr None\<rparr> \<and>
   main [''gen_opts.py'', ''opts.txt'']
        [''opts.txt'' \<mapsto> ''SPVC_COMPILER_OPTION_MSL_ARGUMENT_BUFFERS''] =
     \<lparr>printed = [[LF] @ ''    ///'' @ [LF] @
                  ''    #[option(SPVC_COMPILER_OPTION_MSL_ARGUMENT_BUFFERS, false)]'' @ [LF] @
                  ''    pub argument_buffers: bool,''],
      errors = [], unread = [], result = Inr None\<rparr>"
proof -
  have a: "re_split option_pattern ''SPVC_COMPILER_OPTION_MSL_ARGUMENT_BUFFERS'' =
     [[], ''SPVC_COMPILER_OPTION_'', ''MSL_'', ''ARGUMENT_BUFFERS'', []]"
    by code_simp
  have b: "loop (universal_newlines (''SPVC_COMPILER_OPTION_MSL_ARGUMENT_BUFFERS'' @ [LF])) [] =
     \<lparr>printed = [[LF] @ ''    ///'' @ [LF] @
                  ''    #[option(SPVC_COMPILER_OPTION_MSL_ARGUMENT_BUFFERS, false)]'' @ [LF] @
                  ''    pub argument_buffers: bool,''],
      errors = [], unread = [], result = Inr None\<rparr>"
    by code_simp
  have c: "loop (universal_newlines ''SPVC_COMPILER_OPTION_MSL_ARGUMENT_BUFFERS'') [] =
     \<lparr>printed = [[LF] @ ''    ///'' @ [LF] @
                  ''    #[option(SPVC_COMPILER_OPTION_MSL_ARGUMENT_BUFFERS, false)]'' @ [LF] @
                  ''    pub argument_buffers: bool,''],
      errors = [], unread = [], result = Inr None\<rparr>"
    by code_simp
  show ?thesis
    using a b c by (simp add: main_def)
qed

text \<open>
  C7 (blank line).  When the next line of the file strips to the empty text,
  \<open>re.split\<close> returns the empty text alone, \<open>matches[3]\<close> raises
  \<open>IndexError\<close>, and the loop ends there with that exception: the texts printed
  are those printed before, with no block for the line.
\<close>

theorem blank_line_no_block:
  assumes "readline content = (line, rest)" and "line \<noteq> []" and "strip line = []"
  shows "re_split option_pattern (strip line) = [[]] \<and>
         process_line line = Inl IndexError \<and>
         loop content out =
           \<lparr>printed = out, errors = [], unread = rest, result = Inl IndexError\<rparr>"
proof -
  have w: "\<not> well_formed (strip line)"
    by (simp add: assms(3) well_formed_def decompositions_Nil)
  have s: "re_split option_pattern (strip line) = [[]]"
    unfolding assms(3) by (rule split_ill_formed) (simp_all add: decompositions_Nil)
  have p: "process_line line = Inl IndexError"
    using w by (rule process_line_ill_formed)
  have "loop content out =
           \<lparr>printed = out, errors = [], unread = rest, result = Inl IndexError\<rparr>"
    by (subst loop.simps) (simp add: assms(1,2) p)
  then show ?thesis using s p by simp
qed

theorem blank_line_no_block_witness:
  "readline ([CHR '' '', CHR 0x09, LF] @ ''SPVC_COMPILER_OPTION_A_B'' @ [LF]) =
     ([CHR '' '', CHR 0x09, LF], ''SPVC_COMPILER_OPTION_A_B'' @ [LF]) \<and>
   strip [CHR '' '', CHR 0x09, LF] = [] \<and>
   loop ([CHR '' '', CHR 0x09, LF] @ ''SPVC_COMPILER_OPTION_A_B'' @ [LF]) [''earlier''] =
     \<lparr>printed = [''earlier''], errors = [], unread = ''SPVC_COMPILER_OPTION_A_B'' @ [LF],
      result = Inl IndexError\<rparr>"
proof -
  have h1: "readline ([CHR '' '', CHR 0x09, LF] @ ''SPVC_COMPILER_OPTION_A_B'' @ [LF]) =
     ([CHR '' '', CHR 0x09, LF], ''SPVC_COMPILER_OPTION_A_B'' @ [LF])"
    by code_simp
  have h2: "[CHR '' '', CHR 0x09, LF] \<noteq> []"
    by simp
  have h3: "strip [CHR '' '', CHR 0x09, LF] = []"
    by code_simp
  show ?thesis
    using h1 h3 blank_line_no_block [OF h1 h2 h3, of "[''earlier'']"] by simp
qed

text \<open>
  C8 (scenario D).  For a path that names an empty file, \<open>main\<close> prints nothing
  on either stream and returns without an exception; the run ends with status 0.
\<close>

theorem empty_file_succeeds:
  assumes "fs path = Some []"
  shows "main (prog # path # extra) fs =
           \<lparr>printed = [], errors = [], unread = [], result = Inr None\<rparr> \<and>
         script (prog # path # extra) fs =
           \<lparr>stdout = [], stderr = [], traceback = None, exit_status = 0\<rparr>"
proof -
  have "loop [] [] = \<lparr>printed = [], errors = [], unread = [], result = Inr None\<rparr>"
    by (subst loop.simps) simp
  then have "main (prog # path # extra) fs =
           \<lparr>printed = [], errors = [], unread = [], result = Inr None\<rparr>"
    using assms by (simp add: main_def)
  then show ?thesis
    by (simp add: script_def stream_text_def)
qed

theorem empty_file_succeeds_witness:
  "[''opts.txt'' \<mapsto> []] ''opts.txt'' = Some [] \<and>
   script [''gen_opts.py'', ''opts.txt''] [''opts.txt'' \<mapsto> []] =
     \<lparr>stdout = [], stderr = [], traceback = None, exit_status = 0\<rparr>"
proof -
  have h: "[''opts.txt'' \<mapsto> []] ''opts.txt'' = Some []"
    by simp
  show ?thesis
    using h empty_file_succeeds [where fs = "[''opts.txt'' \<mapsto> []]" and path = "''opts.txt''"
        and prog = "''gen_opts.py''" and extra = "[]", OF h]
    by simp
qed

text \<open>
  C9 (unique decomposition).  A token has at most one decomposition into prefix,
  category and suffix; when it has one, the letters of the category are the longest
  run of upper-case letters after the prefix, the groups that \<open>re.split\<close> returns
  are this decomposition, and the field name is its suffix in lower case.  A token made
  of the prefix, upper-case letters and a final underscore, with no suffix, has no
  decomposition and \<open>re.split\<close> returns it whole.
\<close>

theorem decomposition_is_unique:
  "((cat, suf) \<in> set (decompositions t) \<and> (cat', suf') \<in> set (decompositions t) \<longrightarrow>
      cat' = cat \<and> suf' = suf) \<and>
   ((cat, suf) \<in> set (decompositions t) \<longrightarrow>
      cat = takeWhile is_upper (drop (length PREFIX) t) \<and>
      re_split option_pattern t = [[], PREFIX, cat @ ''_'', suf, []] \<and>
      field_name t = Some (lower suf)) \<and>
   (list_all is_upper u \<longrightarrow>
      decompositions (PREFIX @ u @ ''_'') = [] \<and>
      re_split option_pattern (PREFIX @ u @ ''_'') = [PREFIX @ u @ ''_''])"
proof (intro conjI impI)
  assume "(cat, suf) \<in> set (decompositions t) \<and> (cat', suf') \<in> set (decompositions t)"
  then show "cat' = cat" and "suf' = suf"
    using decomposition_unique by blast+
next
  assume m: "(cat, suf) \<in> set (decompositions t)"
  show "cat = takeWhile is_upper (drop (length PREFIX) t)"
    using decomposition_parts(2) [OF m] by simp
  show "re_split option_pattern t = [[], PREFIX, cat @ ''_'', suf, []]"
    using m by (rule split_well_formed)
  show "field_name t = Some (lower suf)"
    using m by (rule field_name_well_formed)
next
  assume u: "list_all is_upper u"
  show d: "decompositions (PREFIX @ u @ ''_'') = []"
    using u by (rule no_empty_suffix)
  show "re_split option_pattern (PREFIX @ u @ ''_'') = [PREFIX @ u @ ''_'']"
    using d by (rule split_ill_formed) simp
qed

theorem decomposition_is_unique_witness:
  "(''MSL'', ''ARGUMENT_BUFFERS'') \<in>
      set (decompositions ''SPVC_COMPILER_OPTION_MSL_ARGUMENT_BUFFERS'') \<and>
   ''MSL'' = takeWhile is_upper
      (drop (length PREFIX) ''SPVC_COMPILER_OPTION_MSL_ARGUMENT_BUFFERS'') \<and>
   re_split option_pattern ''SPVC_COMPILER_OPTION_MSL_ARGUMENT_BUFFERS'' =
      [[], PREFIX, ''MSL'' @ ''_'', ''ARGUMENT_BUFFERS'', []] \<and>
   list_all is_upper ''MSL'' \<and>
   decompositions (PREFIX @ ''MSL'' @ ''_'') = [] \<and>
   re_split option_pattern (PREFIX @ ''MSL'' @ ''_'') = [PREFIX @ ''MSL'' @ ''_'']"
proof -
  have h1: "(''MSL'', ''ARGUMENT_BUFFERS'') \<in>
      set (decompositions ''SPVC_COMPILER_OPTION_MSL_ARGUMENT_BUFFERS'')"
    by code_simp
  have h2: "list_all is_upper ''MSL''"
    by code_simp
  note t = decomposition_is_unique [where cat = "''MSL''" and suf = "''ARGUMENT_BUFFERS''"
      and cat' = "''MSL''" and suf' = "''ARGUMENT_BUFFERS''"
      and t = "''SPVC_COMPILER_OPTION_MSL_ARGUMENT_BUFFERS''" and u = "''MSL''"]
  show ?thesis
    using h1 h2 t by blast
qed

text \<open>
  C10 (extra arguments).  Two runs with the same first argument, on file systems that
  agree at that path, give the same outcome of \<open>main\<close> and the same standard output,
  error stream, exception and status, whatever arguments follow the first.
\<close>

theorem extra_arguments_ignored:
  assumes "fs path = fs' path"
  shows "main (prog # path # extra) fs = main (prog # path # extra') fs' \<and>
         script (prog # path # extra) fs = script (prog # path # extra') fs'"
  using assms by (simp add: script_def main_def split: option.splits)

theorem extra_arguments_ignored_witness:
  "[''opts.txt'' \<mapsto> ''SPVC_COMPILER_OPTION_A_B''] ''opts.txt'' =
     [''opts.txt'' \<mapsto> ''SPVC_COMPILER_OPTION_A_B'', ''other.txt'' \<mapsto> ''x''] ''opts.txt'' \<and>
   script [''gen_opts.py'', ''opts.txt''] [''opts.txt'' \<mapsto> ''SPVC_COMPILER_OPTION_A_B''] =
     script [''gen_opts.py'', ''opts.txt'', ''other.txt'', ''--verbose'']
       [''opts.txt'' \<mapsto> ''SPVC_COMPILER_OPTION_A_B'', ''other.txt'' \<mapsto> ''x'']"
proof -
  have h: "[''opts.txt'' \<mapsto> ''SPVC_COMPILER_OPTION_A_B''] ''opts.txt'' =
     [''opts.txt'' \<mapsto> ''SPVC_COMPILER_OPTION_A_B'', ''other.txt'' \<mapsto> ''x''] ''opts.txt''"
    by simp
  show ?thesis
    using h extra_arguments_ignored
      [where fs = "[''opts.txt'' \<mapsto> ''SPVC_COMPILER_OPTION_A_B'']"
         and fs' = "[''opts.txt'' \<mapsto> ''SPVC_COMPILER_OPTION_A_B'', ''other.txt'' \<mapsto> ''x'']"
         and path = "''opts.txt''" and prog = "''gen_opts.py''" and extra = "[]"
         and extra' = "[''other.txt'', ''--verbose'']", OF h]
    by simp
qed

end
